theory Spec2Isabelle
  imports Complex_Main
begin

section \<open>Branch-and-bound route planner: the search driver \<open>det_path_planning\<close>\<close>

text \<open>
  The theory embeds the function \<open>det_path_planning\<close> of
  \<^verbatim>\<open>bluesky_gym/envs/common/deterministic_path_planning.py\<close>.
  The function imports its geometry and its classes (\<open>Pos\<close>, \<open>Obs\<close>, \<open>Route\<close>,
  \<open>LatLon2XY\<close>, \<open>XY2LatLon\<close>, \<open>parse\<close>, \<open>intersectionpt\<close>, \<open>callWinds\<close>,
  \<open>specifywindfield\<close>) from the module \<open>tools_deterministic_path_planning\<close>, whose text is
  not among the sources. Every function and method of that module is therefore a
  parameter of the driver (a field of the record \<open>tools\<close>); the driver itself is
  translated line by line.

  Conventions.
  \<^item> Python floats are read as \<open>real\<close>; \<open>np.nan\<close> in the list \<open>firstseg\<close> is \<open>None\<close>.
  \<^item> Waypoints and vertices are coordinate pairs; indices of route segments and of
    obstacle edges are natural numbers.
  \<^item> The class attribute \<open>Route.active\<close> is explicit state: the driver receives the
    list as it stands at entry. What the constructor \<open>Route(...)\<close> does to the list is
    not in the sources, and it is a parameter too (\<open>Route_registers\<close>): either it leaves
    the list alone, or it appends the new object, as the comment at lines 401-403 has it
    ("declaring it's a route (and thus adding it to active waypoint list)"). The methods
    of \<open>Route\<close> and \<open>Obs\<close> are read as functions of the object they are called on.
  \<^item> Every exception the driver's own statements can raise is a value of \<open>error\<close>.
  \<^item> The \<open>while\<close> loop is a recursion on a step budget; running out of budget is
    \<open>None\<close>.
\<close>

subsection \<open>Data\<close>

type_synonym point = "real \<times> real"

text \<open>An object of the class \<open>Pos\<close> is made from a coordinate pair: \<open>Pos(LatLon2XY(lat0,lon0))\<close>,
  \<open>Pos(parent.waypoints[...])\<close>.\<close>

datatype Pos = Pos point

text \<open>The attributes of \<open>Route\<close> are those its constructor is given, in that order.\<close>

record Route =
  origin :: Pos
  destination :: Pos
  speed :: real
  waypoints :: "point list"
  distance :: real
  time :: real
  deviation :: real

text \<open>Of an obstacle the driver reads the attribute \<open>vert\<close> only.\<close>

record Obs =
  vert :: "point list"

datatype error =
    ImpossibleToFindRoute
  | IndexError
  | ValueError
  | AttributeError
  | ZeroDivisionError

text \<open>
  The imported module. \<open>Route_registers\<close> says whether \<open>Route(...)\<close> appends the object
  it builds to \<open>Route.active\<close>. The object in the list is then the one the driver goes
  on to change (\<open>clean\<close>, \<open>insert\<close>, \<open>backwardcleanup\<close>, \<open>deviationcheck\<close>, the assignment
  to \<open>deviation\<close>) before anything reads the list, so the list shows it as changed.
  \<open>Pos_sub\<close> and \<open>Pos_length\<close> are the subtraction and the method
  \<open>length()\<close> of \<open>Pos\<close>. \<open>Route_insert\<close>, \<open>backwardcleanup\<close> and \<open>clean\<close> return the
  route they were called on, as changed; \<open>deviationcheck\<close> returns its value together
  with the route it was called on (it is the only call left that can set the distance
  and the time of a branch).
\<close>

record 'w tools =
  Route_registers :: bool
  Pos_sub :: "Pos \<Rightarrow> Pos \<Rightarrow> Pos"
  Pos_length :: "Pos \<Rightarrow> real"
  LatLon2XY :: "real \<Rightarrow> real \<Rightarrow> point"
  XY2LatLon :: "real \<Rightarrow> real \<Rightarrow> point"
  Obs_init :: "point list \<Rightarrow> Obs"
  parse :: "Pos \<Rightarrow> Pos \<Rightarrow> real \<times> real \<times> point list"
  specifywindfield :: "real \<Rightarrow> real \<Rightarrow> real \<Rightarrow> real \<Rightarrow> 'w"
  callWinds :: "'w \<Rightarrow> Route \<Rightarrow> real list \<times> real list"
  intersectionpt :: "point \<Rightarrow> point \<Rightarrow> point \<Rightarrow> point \<Rightarrow> Pos"
  clean :: "Obs list \<Rightarrow> Route \<Rightarrow> Route"
  Route_insert :: "nat \<Rightarrow> point list \<Rightarrow> Route \<Rightarrow> Route"
  backwardcleanup :: "Obs list \<Rightarrow> nat \<Rightarrow> Route \<Rightarrow> Route"
  deviationcheck :: "Route \<Rightarrow> Route \<Rightarrow> nat \<Rightarrow> real list \<times> real list \<Rightarrow> real \<times> Route"
  intersectroute :: "Obs \<Rightarrow> Route \<Rightarrow> (nat \<times> nat) list"
  resort :: "Obs \<Rightarrow> nat list \<Rightarrow> Route \<Rightarrow> (nat \<times> nat) list \<Rightarrow> nat list"
  leftalt :: "Obs \<Rightarrow> nat list \<Rightarrow> point list"
  rightalt :: "Obs \<Rightarrow> nat list \<Rightarrow> point list"
  extupdate :: "Obs \<Rightarrow> point list \<Rightarrow> Pos \<Rightarrow> point list"

text \<open>The state of the loop: the open set, \<open>incflag\<close> and \<open>incumbent\<close>
  (\<open>None\<close> is the initial \<open>float('inf')\<close>).\<close>

record search_state =
  active :: "Route list"
  incflag :: nat
  incumbent :: "Route option"

subsection \<open>Python list primitives\<close>

text \<open>\<open>min(xs)\<close>: \<open>None\<close> stands for the \<open>ValueError\<close> on an empty list.\<close>

fun py_min :: "'a::linorder list \<Rightarrow> 'a option" where
  "py_min [] = None"
| "py_min (x # xs) = Some (fold (\<lambda>y m. if y < m then y else m) xs x)"

text \<open>\<open>xs.index(v)\<close>: the first position of \<open>v\<close>; \<open>None\<close> stands for the \<open>ValueError\<close>.\<close>

fun py_index :: "'a list \<Rightarrow> 'a \<Rightarrow> nat option" where
  "py_index [] v = None"
| "py_index (x # xs) v =
     (if x = v then Some 0
      else case py_index xs v of None \<Rightarrow> None | Some i \<Rightarrow> Some (Suc i))"

text \<open>\<open>xs[i]\<close> for an index that is not negative.\<close>

definition py_get :: "'a list \<Rightarrow> nat \<Rightarrow> error + 'a" where
  "py_get xs i = (if i < length xs then Inr (xs ! i) else Inl IndexError)"

text \<open>\<open>xs.pop(i)\<close>: the list that is left.\<close>

definition py_pop :: "nat \<Rightarrow> 'a list \<Rightarrow> 'a list" where
  "py_pop i xs = take i xs @ drop (Suc i) xs"

subsection \<open>Settings fixed in the function body\<close>

definition windsOn :: nat where
  "windsOn = 0"

definition optimizationpriority :: nat where
  "optimizationpriority = 0"

subsection \<open>Selection of the parent (lines 215-229)\<close>

definition select_parent :: "Route list \<Rightarrow> error + (Route \<times> Route list)" where
  "select_parent act =
     (if length act = 1 then Inr (last act, butlast act)
      else
        let deviationmin = map deviation act in
        case py_min deviationmin of
          None \<Rightarrow> Inl ValueError
        | Some m \<Rightarrow>
            (case py_index deviationmin m of
               None \<Rightarrow> Inl ValueError
             | Some topop \<Rightarrow> Inr (act ! topop, py_pop topop act)))"

subsection \<open>The bound check (lines 240-259)\<close>

text \<open>Evaluated when \<open>incflag == 1\<close>; \<open>True\<close> is the \<open>continue\<close>. Reading
  \<open>incumbent.distance\<close> off the initial \<open>float('inf')\<close> is an \<open>AttributeError\<close>.\<close>

definition fathomed :: "nat \<Rightarrow> Route \<Rightarrow> Route option \<Rightarrow> error + bool" where
  "fathomed prio parent inc =
     (if prio = 0 then
        (case inc of None \<Rightarrow> Inl AttributeError
         | Some i \<Rightarrow> Inr (distance parent \<ge> distance i))
      else if prio = 1 then
        (case inc of None \<Rightarrow> Inl AttributeError
         | Some i \<Rightarrow> Inr (time parent \<ge> time i))
      else Inr False)"

subsection \<open>The branching obstacle (lines 277-320)\<close>

text \<open>The inner loop over \<open>j\<close> (lines 310-314): one distance for every recorded
  intersection of the obstacle.\<close>

fun checkdists ::
  "'w tools \<Rightarrow> Obs \<Rightarrow> point \<Rightarrow> point \<Rightarrow> Pos \<Rightarrow> (nat \<times> nat) list \<Rightarrow> error + real list" where
  "checkdists T ob routpt1 routpt2 refpt [] = Inr []"
| "checkdists T ob routpt1 routpt2 refpt (ie # tab) =
     (case py_get (vert ob) (snd ie) of
        Inl e \<Rightarrow> Inl e
      | Inr a \<Rightarrow>
          (case py_get (vert ob) (snd ie + 1) of
             Inl e \<Rightarrow> Inl e
           | Inr b \<Rightarrow>
               (case checkdists T ob routpt1 routpt2 refpt tab of
                  Inl e \<Rightarrow> Inl e
                | Inr ds \<Rightarrow>
                    Inr (Pos_length T (Pos_sub T (intersectionpt T a b routpt1 routpt2) refpt)
                         # ds))))"

text \<open>The outer loop over \<open>i\<close> (lines 309-315). \<open>distlist\<close> is created once, before the
  loop, and is carried from one obstacle to the next. The elements of \<open>indices\<close> are
  positions of \<open>firstseg\<close>, which is as long as \<open>allintersections\<close> and \<open>obsDic_xy\<close>.\<close>

fun tie_options ::
  "'w tools \<Rightarrow> Obs list \<Rightarrow> (nat \<times> nat) list list \<Rightarrow> point \<Rightarrow> point \<Rightarrow> Pos \<Rightarrow>
   nat list \<Rightarrow> real list \<Rightarrow> error + real list" where
  "tie_options T obsDic allintersections routpt1 routpt2 refpt [] distlist = Inr []"
| "tie_options T obsDic allintersections routpt1 routpt2 refpt (i # indices) distlist =
     (case checkdists T (obsDic ! i) routpt1 routpt2 refpt (allintersections ! i) of
        Inl e \<Rightarrow> Inl e
      | Inr ds \<Rightarrow>
          (case py_min (distlist @ ds) of
             None \<Rightarrow> Inl ValueError
           | Some d \<Rightarrow>
               (case tie_options T obsDic allintersections routpt1 routpt2 refpt indices
                       (distlist @ ds) of
                  Inl e \<Rightarrow> Inl e
                | Inr options \<Rightarrow> Inr (d # options))))"

definition firstseg_of :: "(nat \<times> nat) list list \<Rightarrow> nat option list" where
  "firstseg_of allintersections =
     map (\<lambda>tab. if tab \<noteq> [] then py_min (map fst tab) else None) allintersections"

definition tie_indices :: "nat option list \<Rightarrow> nat \<Rightarrow> nat list" where
  "tie_indices firstseg m = map fst (filter (\<lambda>ix. snd ix = Some m) (enumerate 0 firstseg))"

definition branch_obstacle ::
  "'w tools \<Rightarrow> Obs list \<Rightarrow> Route \<Rightarrow> (nat \<times> nat) list list \<Rightarrow> error + nat" where
  "branch_obstacle T obsDic parent allintersections =
     (let firstseg = firstseg_of allintersections;
          valid_firstseg = List.map_filter (\<lambda>f. f) firstseg
      in case py_min valid_firstseg of
           None \<Rightarrow> Inl ValueError
         | Some m \<Rightarrow>
             if count_list firstseg (Some m) > 1 then
               let indices = tie_indices firstseg m in
               (case py_get (waypoints parent) m of
                  Inl e \<Rightarrow> Inl e
                | Inr routpt1 \<Rightarrow>
                    (case py_get (waypoints parent) (m + 1) of
                       Inl e \<Rightarrow> Inl e
                     | Inr routpt2 \<Rightarrow>
                         (case tie_options T obsDic allintersections routpt1 routpt2
                                 (Pos routpt1) indices [] of
                            Inl e \<Rightarrow> Inl e
                          | Inr options \<Rightarrow>
                              (case py_min options of
                                 None \<Rightarrow> Inl ValueError
                               | Some least \<Rightarrow>
                                   (case py_index options least of
                                      None \<Rightarrow> Inl ValueError
                                    | Some k \<Rightarrow> py_get indices k)))))
             else
               (case py_index firstseg (Some m) of
                  None \<Rightarrow> Inl ValueError
                | Some b \<Rightarrow> Inr b))"

subsection \<open>The two detour routes (lines 327-426)\<close>

text \<open>Lines 387-399 for \<open>routeL\<close> and 412-424 for \<open>routeR\<close>: the same statements on the
  left and on the right list of alternative waypoints.\<close>

definition branch_route ::
  "'w tools \<Rightarrow> 'w \<Rightarrow> nat \<Rightarrow> Pos \<Rightarrow> Pos \<Rightarrow> real \<Rightarrow> Obs list \<Rightarrow> Route \<Rightarrow> nat \<Rightarrow> point list
   \<Rightarrow> Route" where
  "branch_route T wind prio orig dest TAS obsDic parent altWptIndex altWptclean =
     (let route0 = \<lparr>origin = orig, destination = dest, speed = TAS,
                     waypoints = waypoints parent, distance = distance parent,
                     time = time parent, deviation = deviation parent\<rparr>;
          route1 = Route_insert T altWptIndex altWptclean route0;
          lstpt = altWptIndex + length altWptclean;
          route2 = backwardcleanup T obsDic lstpt route1;
          windsaloft =
            (if windsOn = 1 then callWinds T wind route2
             else (replicate (length (waypoints route2)) 0,
                   replicate (length (waypoints route2)) 0));
          (dev, route3) = deviationcheck T route2 parent prio windsaloft
      in route3\<lparr>deviation := dev\<rparr>)"

text \<open>What \<open>Route(...)\<close> at lines 135, 387 and 412 adds to \<open>Route.active\<close>.\<close>

definition registered :: "'w tools \<Rightarrow> Route \<Rightarrow> Route list" where
  "registered T r = (if Route_registers T then [r] else [])"

text \<open>The result is the list of entries added to \<open>Route.active\<close>, in the order of lines
  387, 405, 412 and 426: \<open>routeL\<close> by its constructor, \<open>routeL\<close> by \<open>append\<close>, \<open>routeR\<close> by its
  constructor, \<open>routeR\<close> by \<open>append\<close>.\<close>

definition expand ::
  "'w tools \<Rightarrow> 'w \<Rightarrow> nat \<Rightarrow> Pos \<Rightarrow> Pos \<Rightarrow> real \<Rightarrow> Obs list \<Rightarrow> Route \<Rightarrow>
   (nat \<times> nat) list list \<Rightarrow> error + Route list" where
  "expand T wind prio orig dest TAS obsDic parent allintersections =
     (case branch_obstacle T obsDic parent allintersections of
        Inl e \<Rightarrow> Inl e
      | Inr branch \<Rightarrow>
          (let intersectTab = allintersections ! branch;
               segList = map snd intersectTab;
               segList' = resort T (obsDic ! branch) segList parent intersectTab;
               altWptL = leftalt T (obsDic ! branch) segList';
               altWptR = rightalt T (obsDic ! branch) segList';
               altWptLclean = extupdate T (obsDic ! branch) altWptL dest;
               altWptRclean = extupdate T (obsDic ! branch) altWptR dest
           in (case intersectTab of
                 [] \<Rightarrow> Inl IndexError
               | ie # _ \<Rightarrow>
                   (let altWptIndex = fst ie + 1;
                        routeL = branch_route T wind prio orig dest TAS obsDic parent
                                   altWptIndex altWptLclean;
                        routeR = branch_route T wind prio orig dest TAS obsDic parent
                                   altWptIndex altWptRclean
                    in Inr (registered T routeL @ [routeL] @ registered T routeR @ [routeR])))))"

subsection \<open>The incumbent (lines 441-464)\<close>

definition record_incumbent :: "nat \<Rightarrow> Route \<Rightarrow> search_state \<Rightarrow> error + search_state" where
  "record_incumbent prio parent s =
     (if incflag s = 0 then Inr (s\<lparr>incflag := 1, incumbent := Some parent\<rparr>)
      else if prio = 0 then
        (case incumbent s of
           None \<Rightarrow> Inl AttributeError
         | Some i \<Rightarrow>
             if distance parent < distance i then Inr (s\<lparr>incumbent := Some parent\<rparr>)
             else Inr s)
      else if prio = 1 then
        (case incumbent s of
           None \<Rightarrow> Inl AttributeError
         | Some i \<Rightarrow>
             if time parent < time i then Inr (s\<lparr>incumbent := Some parent\<rparr>)
             else Inr s)
      else Inr s)"

subsection \<open>One pass of the loop body (lines 201-464)\<close>

definition all_intersections :: "'w tools \<Rightarrow> Obs list \<Rightarrow> Route \<Rightarrow> (nat \<times> nat) list list" where
  "all_intersections T obsDic parent = map (\<lambda>ob. intersectroute T ob parent) obsDic"

definition iteration ::
  "'w tools \<Rightarrow> 'w \<Rightarrow> nat \<Rightarrow> Pos \<Rightarrow> Pos \<Rightarrow> real \<Rightarrow> Obs list \<Rightarrow> search_state \<Rightarrow>
   error + search_state" where
  "iteration T wind prio orig dest TAS obsDic s =
     (if length (active s) > 500 then Inl ImpossibleToFindRoute
      else
        case select_parent (active s) of
          Inl e \<Rightarrow> Inl e
        | Inr (parent, rest) \<Rightarrow>
            (case (if incflag s = 1 then fathomed prio parent (incumbent s) else Inr False) of
               Inl e \<Rightarrow> Inl e
             | Inr True \<Rightarrow> Inr (s\<lparr>active := rest\<rparr>)
             | Inr False \<Rightarrow>
                 let allintersections = all_intersections T obsDic parent in
                 if filter (\<lambda>f. f \<noteq> []) allintersections \<noteq> [] then
                   (case expand T wind prio orig dest TAS obsDic parent allintersections of
                      Inl e \<Rightarrow> Inl e
                    | Inr new \<Rightarrow> Inr (s\<lparr>active := rest @ new\<rparr>))
                 else record_incumbent prio parent (s\<lparr>active := rest\<rparr>)))"

subsection \<open>The loop\<close>

text \<open>\<open>while len(Route.active)\<close>, with a budget of passes. \<open>None\<close>: the budget is used up
  and the open set is not empty.\<close>

fun search ::
  "'w tools \<Rightarrow> 'w \<Rightarrow> nat \<Rightarrow> Pos \<Rightarrow> Pos \<Rightarrow> real \<Rightarrow> Obs list \<Rightarrow> nat \<Rightarrow> search_state \<Rightarrow>
   (error + search_state) option" where
  "search T wind prio orig dest TAS obsDic 0 s =
     (if active s = [] then Some (Inr s) else None)"
| "search T wind prio orig dest TAS obsDic (Suc n) s =
     (if active s = [] then Some (Inr s)
      else
        case iteration T wind prio orig dest TAS obsDic s of
          Inl e \<Rightarrow> Some (Inl e)
        | Inr s' \<Rightarrow> search T wind prio orig dest TAS obsDic n s')"

subsection \<open>The function\<close>

text \<open>Lines 99-112: the obstacles, in the order of \<open>inputObs\<close>.\<close>

definition obstacles :: "'w tools \<Rightarrow> (real \<times> real) list list \<Rightarrow> Obs list" where
  "obstacles T inputObs =
     map (\<lambda>polygon. Obs_init T (map (\<lambda>(lat, lon). LatLon2XY T lat lon) polygon)) inputObs"

text \<open>Lines 93-97 and 114-124.\<close>

definition windfield :: "'w tools \<Rightarrow> real \<Rightarrow> real \<Rightarrow> real \<Rightarrow> real \<Rightarrow> 'w" where
  "windfield T lat0 lon0 latdest londest =
     (let ymin = min lat0 latdest; ymax = max lat0 latdest;
          xmin = min lon0 londest; xmax = max lon0 londest;
          margin = 0.01;
          xspan = xmax - xmin; yspan = ymax - ymin
      in specifywindfield T (ymin - margin * yspan) (ymax + margin * yspan)
           (xmin - margin * xspan) (xmax + margin * xspan))"

text \<open>Lines 86-87 and 133-155: the direct route, cleaned. \<open>distance/TAS\<close> is Python's
  division.\<close>

definition direct_route ::
  "'w tools \<Rightarrow> real \<Rightarrow> real \<Rightarrow> real \<Rightarrow> real \<Rightarrow> real \<Rightarrow> Obs list \<Rightarrow> error + Route" where
  "direct_route T lat0 lon0 TAS latdest londest obsDic =
     (let orig = Pos (LatLon2XY T lat0 lon0);
          dest = Pos (LatLon2XY T latdest londest);
          (dist, heading, wypts) = parse T orig dest
      in if TAS = 0 then Inl ZeroDivisionError
         else Inr (clean T obsDic
                \<lparr>origin = orig, destination = dest, speed = TAS, waypoints = wypts,
                 distance = dist, time = dist / TAS, deviation = 0\<rparr>))"

text \<open>\<open>Route.active\<close> from entry to the loop: the constructor at line 135, then line 157,
  \<open>Route.active[-1] = directrt\<close>, with lines 198-199. \<open>directrt\<close> is the direct route as
  \<open>clean\<close> at line 155 leaves it.\<close>

definition seed :: "'w tools \<Rightarrow> Route list \<Rightarrow> Route \<Rightarrow> error + search_state" where
  "seed T active0 directrt =
     (let act = active0 @ registered T directrt
      in if act = [] then Inl IndexError
         else Inr \<lparr>active = act[length act - 1 := directrt], incflag = 0,
                   incumbent = None\<rparr>)"

text \<open>Lines 470-494. \<open>IncX,IncY = list(zip(*incumbent.waypoints))\<close> needs a waypoint to
  unpack.\<close>

definition finish :: "'w tools \<Rightarrow> search_state \<Rightarrow> error + point list" where
  "finish T s =
     (case incumbent s of
        None \<Rightarrow> Inl AttributeError
      | Some inc \<Rightarrow>
          if waypoints inc = [] then Inl ValueError
          else Inr (map (\<lambda>element. XY2LatLon T (fst element) (snd element)) (waypoints inc)))"

text \<open>The search of one call: the state in which the loop ends.\<close>

definition det_search ::
  "'w tools \<Rightarrow> nat \<Rightarrow> Route list \<Rightarrow> real \<Rightarrow> real \<Rightarrow> real \<Rightarrow> real \<Rightarrow> real \<Rightarrow> real \<Rightarrow>
   (real \<times> real) list list \<Rightarrow> (error + search_state) option" where
  "det_search T fuel active0 lat0 lon0 altitude TAS latdest londest inputObs =
     (let obsDic_xy = obstacles T inputObs;
          wind = windfield T lat0 lon0 latdest londest
      in case direct_route T lat0 lon0 TAS latdest londest obsDic_xy of
           Inl e \<Rightarrow> Some (Inl e)
         | Inr directrt \<Rightarrow>
             (case seed T active0 directrt of
                Inl e \<Rightarrow> Some (Inl e)
              | Inr s0 \<Rightarrow>
                  search T wind optimizationpriority (Pos (LatLon2XY T lat0 lon0))
                    (Pos (LatLon2XY T latdest londest)) TAS obsDic_xy fuel s0))"

text \<open>\<open>det_path_planning(lat0, lon0, altitude, TAS, latdest, londest, inputObs)\<close>, given
  the tools, the budget of passes and \<open>Route.active\<close> as it stands at entry.\<close>

definition det_path_planning ::
  "'w tools \<Rightarrow> nat \<Rightarrow> Route list \<Rightarrow> real \<Rightarrow> real \<Rightarrow> real \<Rightarrow> real \<Rightarrow> real \<Rightarrow> real \<Rightarrow>
   (real \<times> real) list list \<Rightarrow> (error + point list) option" where
  "det_path_planning T fuel active0 lat0 lon0 altitude TAS latdest londest inputObs =
     (case det_search T fuel active0 lat0 lon0 altitude TAS latdest londest inputObs of
        None \<Rightarrow> None
      | Some (Inl e) \<Rightarrow> Some (Inl e)
      | Some (Inr s) \<Rightarrow> Some (finish T s))"

subsection \<open>Predicates used in the statements\<close>

text \<open>A route that \<open>intersectroute\<close> of every obstacle reports no intersection for.\<close>

definition obstacle_free :: "'w tools \<Rightarrow> Obs list \<Rightarrow> Route \<Rightarrow> bool" where
  "obstacle_free T obsDic r \<longleftrightarrow> (\<forall>ob \<in> set obsDic. intersectroute T ob r = [])"

text \<open>\<open>incflag\<close> and \<open>incumbent\<close> agree: the flag is 1 exactly when a route is recorded.\<close>

definition coherent :: "search_state \<Rightarrow> bool" where
  "coherent s \<longleftrightarrow>
     (incflag s = 0 \<and> incumbent s = None) \<or> (incflag s = 1 \<and> incumbent s \<noteq> None)"



text \<open>The distance line 313-314 computes for one recorded intersection \<open>ie\<close> of an
  obstacle, when the two indices into \<open>vert\<close> are in range.\<close>

definition edge_dist :: "'w tools \<Rightarrow> Obs \<Rightarrow> point \<Rightarrow> point \<Rightarrow> Pos \<Rightarrow> nat \<times> nat \<Rightarrow> real" where
  "edge_dist T ob routpt1 routpt2 refpt ie =
     Pos_length T
       (Pos_sub T (intersectionpt T (vert ob ! snd ie) (vert ob ! (snd ie + 1)) routpt1 routpt2)
          refpt)"

text \<open>The invariant of the loop that keeps \<open>incumbent.waypoints\<close> defined at the exit.\<close>

definition settled :: "search_state \<Rightarrow> bool" where
  "settled s \<longleftrightarrow> coherent s \<and> (active s = [] \<longrightarrow> incflag s = 1)"

section \<open>A planar instance of the tools\<close>

text \<open>
  To run the driver on concrete scenarios the tools are instantiated: one degree is sixty
  nautical miles, lengths are taxicab lengths, the direct route has the two end points
  as waypoints, two segments intersect when they cross properly, the detours walk the
  ring of vertices of the obstacle from the edge met first to the edge met last, and
  \<open>intersectionpt\<close> is the meeting point of the two lines.
\<close>

definition ccw :: "point \<Rightarrow> point \<Rightarrow> point \<Rightarrow> real" where
  "ccw a b c = (fst b - fst a) * (snd c - snd a) - (snd b - snd a) * (fst c - fst a)"

definition crosses :: "point \<times> point \<Rightarrow> point \<times> point \<Rightarrow> bool" where
  "crosses s g \<longleftrightarrow>
     ccw (fst s) (snd s) (fst g) * ccw (fst s) (snd s) (snd g) < 0 \<and>
     ccw (fst g) (snd g) (fst s) * ccw (fst g) (snd g) (snd s) < 0"

definition segments :: "point list \<Rightarrow> (point \<times> point) list" where
  "segments ps = zip ps (tl ps)"

definition demo_intersectroute :: "Obs \<Rightarrow> Route \<Rightarrow> (nat \<times> nat) list" where
  "demo_intersectroute ob r =
     concat (map (\<lambda>is. map (\<lambda>eg. (fst is, fst eg))
                         (filter (\<lambda>eg. crosses (snd is) (snd eg))
                            (enumerate 0 (segments (vert ob)))))
                 (enumerate 0 (segments (waypoints r))))"

definition taxicab :: "point list \<Rightarrow> real" where
  "taxicab ps =
     sum_list (map (\<lambda>s. \<bar>fst (snd s) - fst (fst s)\<bar> + \<bar>snd (snd s) - snd (fst s)\<bar>)
                 (segments ps))"

fun ring_walk :: "point list \<Rightarrow> nat \<Rightarrow> nat \<Rightarrow> point list" where
  "ring_walk ring start 0 = []"
| "ring_walk ring start (Suc k) =
     ring ! (start mod length ring) # ring_walk ring (Suc start) k"

definition demo_rightalt :: "Obs \<Rightarrow> nat list \<Rightarrow> point list" where
  "demo_rightalt ob segList =
     (let ring = butlast (vert ob); n = length ring
      in if segList = [] \<or> n = 0 then []
         else ring_walk ring (hd segList + 1) ((last segList + n - hd segList) mod n))"

definition demo_leftalt :: "Obs \<Rightarrow> nat list \<Rightarrow> point list" where
  "demo_leftalt ob segList =
     (let ring = butlast (vert ob); n = length ring
      in if segList = [] \<or> n = 0 then []
         else rev (ring_walk ring (last segList + 1)
                     ((hd segList + n - last segList) mod n)))"

definition demo_deviationcheck ::
  "Route \<Rightarrow> Route \<Rightarrow> nat \<Rightarrow> real list \<times> real list \<Rightarrow> real \<times> Route" where
  "demo_deviationcheck self parent prio windsaloft =
     (let d = taxicab (waypoints self);
          self' = self\<lparr>distance := d, time := d / speed self\<rparr>
      in (if prio = 0 then d - distance parent else d / speed self - time parent, self'))"

definition demo_intersectionpt :: "point \<Rightarrow> point \<Rightarrow> point \<Rightarrow> point \<Rightarrow> Pos" where
  "demo_intersectionpt a b p q =
     (let den = (fst a - fst b) * (snd p - snd q) - (snd a - snd b) * (fst p - fst q);
          ca = fst a * snd b - snd a * fst b;
          cp = fst p * snd q - snd p * fst q
      in if den = 0 then Pos a
         else Pos ((ca * (fst p - fst q) - (fst a - fst b) * cp) / den,
                   (ca * (snd p - snd q) - (snd a - snd b) * cp) / den))"

definition demo_tools :: "unit tools" where
  "demo_tools =
     \<lparr>Route_registers = False,
      Pos_sub = (\<lambda>a b. case (a, b) of
                  (Pos (x1, y1), Pos (x2, y2)) \<Rightarrow> Pos (x1 - x2, y1 - y2)),
      Pos_length = (\<lambda>a. case a of Pos (x, y) \<Rightarrow> \<bar>x\<bar> + \<bar>y\<bar>),
      LatLon2XY = (\<lambda>lat lon. (lon * 60, lat * 60)),
      XY2LatLon = (\<lambda>x y. (y / 60, x / 60)),
      Obs_init = (\<lambda>vs. \<lparr>vert = (case vs of [] \<Rightarrow> [] | v # _ \<Rightarrow> vs @ [v])\<rparr>),
      parse = (\<lambda>orig dest. case (orig, dest) of
                 (Pos p, Pos q) \<Rightarrow> (taxicab [p, q], 0, [p, q])),
      specifywindfield = (\<lambda>ymin ymax xmin xmax. ()),
      callWinds = (\<lambda>wind r. (replicate (length (waypoints r)) 0,
                               replicate (length (waypoints r)) 0)),
      intersectionpt = demo_intersectionpt,
      clean = (\<lambda>obsDic r. r),
      Route_insert = (\<lambda>k pts r.
                 r\<lparr>waypoints := take k (waypoints r) @ pts @ drop k (waypoints r)\<rparr>),
      backwardcleanup = (\<lambda>obsDic lstpt r. r),
      deviationcheck = demo_deviationcheck,
      intersectroute = demo_intersectroute,
      resort = (\<lambda>ob segList parent intersectTab. segList),
      leftalt = demo_leftalt,
      rightalt = demo_rightalt,
      extupdate = (\<lambda>ob alt dest. filter (\<lambda>p. Pos p \<noteq> dest) (remdups_adj alt))\<rparr>"

text \<open>The scenario of the specification: from (0, 0) to (100, 0) nautical miles, at 100
  knots, past the square with corners (40, -10), (40, 10), (60, 10), (60, -10). The
  inputs are in degrees.\<close>

definition square :: "(real \<times> real) list" where
  "square = [(- 1 / 6, 2 / 3), (1 / 6, 2 / 3), (1 / 6, 1), (- 1 / 6, 1)]"

text \<open>An entry that \<open>Route.active\<close> may hold before a call.\<close>

definition old_route :: Route where
  "old_route =
     \<lparr>origin = Pos (0, 0), destination = Pos (6, 0), speed = 100,
      waypoints = [(0, 0), (6, 0)], distance = 6, time = 6 / 100, deviation = 0\<rparr>"

text \<open>The direct route and the two detours of the scenario.\<close>

definition direct_100 :: Route where
  "direct_100 =
     \<lparr>origin = Pos (0, 0), destination = Pos (100, 0), speed = 100,
      waypoints = [(0, 0), (100, 0)], distance = 100, time = 1, deviation = 0\<rparr>"

definition south_100 :: Route where
  "south_100 =
     \<lparr>origin = Pos (0, 0), destination = Pos (100, 0), speed = 100,
      waypoints = [(0, 0), (40, - 10), (60, - 10), (100, 0)], distance = 120,
      time = 6 / 5, deviation = 20\<rparr>"

definition north_100 :: Route where
  "north_100 =
     \<lparr>origin = Pos (0, 0), destination = Pos (100, 0), speed = 100,
      waypoints = [(0, 0), (40, 10), (60, 10), (100, 0)], distance = 120,
      time = 6 / 5, deviation = 20\<rparr>"

text \<open>The same tools with a constructor that appends the new route to \<open>Route.active\<close>.\<close>

definition registering_tools :: "unit tools" where
  "registering_tools = demo_tools\<lparr>Route_registers := True\<rparr>"










text \<open>Tools in which the time of a route is not proportional to its length: a route
  through a waypoint south of the axis loses an hour.\<close>

definition gust_deviationcheck ::
  "Route \<Rightarrow> Route \<Rightarrow> nat \<Rightarrow> real list \<times> real list \<Rightarrow> real \<times> Route" where
  "gust_deviationcheck self parent prio windsaloft =
     (let d = taxicab (waypoints self);
          t = d / speed self + (if \<exists>p \<in> set (waypoints self). snd p < 0 then 1 else 0);
          self' = self\<lparr>distance := d, time := t\<rparr>
      in (if prio = 0 then d - distance parent else t - time parent, self'))"

definition gust_tools :: "unit tools" where
  "gust_tools = demo_tools\<lparr>deviationcheck := gust_deviationcheck\<rparr>"

text \<open>The final states of the scenario under \<open>gust_tools\<close>: searched by distance and
  searched by time.\<close>

definition gust_south :: Route where
  "gust_south = south_100\<lparr>time := 11 / 5\<rparr>"

definition gust_north :: Route where
  "gust_north = north_100\<lparr>deviation := 1 / 5\<rparr>"

section \<open>Python list primitives: facts\<close>

lemma py_min_step:
  "(\<lambda>y m. if y < m then y else m) = (min :: 'a::linorder \<Rightarrow> 'a \<Rightarrow> 'a)"
  by (intro ext) (simp add: min_def not_less less_le)

lemma fold_py_min:
  "fold (\<lambda>y m. if y < m then y else m) xs (x::'a::linorder) = Min (set (x # xs))"
  unfolding py_min_step by (rule Min.set_eq_fold[symmetric])

lemma py_min_Min: "xs \<noteq> [] \<Longrightarrow> py_min xs = Some (Min (set xs))"
  by (cases xs) (simp_all add: fold_py_min del: set_simps)

lemma py_min_None: "py_min xs = None \<longleftrightarrow> xs = []"
  by (cases xs) simp_all

lemma py_index_SomeD:
  "py_index xs v = Some i \<Longrightarrow> i < length xs \<and> xs ! i = v \<and> (\<forall>j<i. xs ! j \<noteq> v)"
proof (induction xs arbitrary: i)
  case Nil
  then show ?case by simp
next
  case (Cons x xs)
  show ?case
  proof (cases "x = v")
    case True
    with Cons.prems show ?thesis by simp
  next
    case False
    with Cons.prems obtain k where k: "py_index xs v = Some k" and i: "i = Suc k"
      by (simp split: option.splits)
    from Cons.IH[OF k] have kl: "k < length xs" and kv: "xs ! k = v"
      and kf: "\<forall>j<k. xs ! j \<noteq> v" by simp_all
    have "(x # xs) ! j \<noteq> v" if "j < Suc k" for j
      using that False kf by (cases j) simp_all
    with kl kv i show ?thesis by simp
  qed
qed

lemma py_index_mem: "v \<in> set xs \<Longrightarrow> \<exists>i. py_index xs v = Some i"
  by (induction xs) (auto split: option.splits)

section \<open>Selection of the parent\<close>

lemma select_parent_pops:
  assumes "act \<noteq> []"
  shows "\<exists>i<length act.
           select_parent act = Inr (act ! i, take i act @ drop (Suc i) act) \<and>
           (length act = 1 \<longrightarrow> i = 0) \<and>
           (\<forall>j<length act. deviation (act ! i) \<le> deviation (act ! j)) \<and>
           (\<forall>j<i. deviation (act ! i) < deviation (act ! j))"
proof (cases "length act = 1")
  case True
  then obtain r where "act = [r]" by (cases act) auto
  then show ?thesis by (intro exI[of _ 0]) (simp add: select_parent_def)
next
  case False
  let ?d = "map deviation act"
  have ne: "?d \<noteq> []" using assms by simp
  have m: "py_min ?d = Some (Min (set ?d))" by (rule py_min_Min[OF ne])
  have "Min (set ?d) \<in> set ?d" using ne by (intro Min_in) auto
  then have "\<exists>i. py_index ?d (Min (set ?d)) = Some i" by (rule py_index_mem)
  then obtain i where i: "py_index ?d (Min (set ?d)) = Some i" ..
  have il: "i < length act" and iv: "?d ! i = Min (set ?d)"
    and first: "\<forall>j<i. ?d ! j \<noteq> Min (set ?d)"
    using py_index_SomeD[OF i] by (simp_all del: set_map nth_map)
  have le: "deviation (act ! i) \<le> deviation (act ! j)" if "j < length act" for j
  proof -
    have "?d ! j \<in> set ?d" using that by (intro nth_mem) simp
    then have "Min (set ?d) \<le> ?d ! j" by (intro Min_le) simp_all
    moreover have "?d ! j = deviation (act ! j)" using that by (rule nth_map)
    moreover have "?d ! i = deviation (act ! i)" using il by (rule nth_map)
    ultimately show ?thesis using iv by metis
  qed
  have lt: "deviation (act ! i) < deviation (act ! j)" if "j < i" for j
  proof -
    have jl: "j < length act" using that il by simp
    have "?d ! j \<noteq> ?d ! i" using first that iv by metis
    moreover have "?d ! j = deviation (act ! j)" using jl by (rule nth_map)
    moreover have "?d ! i = deviation (act ! i)" using il by (rule nth_map)
    ultimately have "deviation (act ! i) \<noteq> deviation (act ! j)" by metis
    with le[OF jl] show ?thesis by simp
  qed
  have sel: "select_parent act = Inr (act ! i, take i act @ drop (Suc i) act)"
    using False m i by (simp add: select_parent_def py_pop_def del: set_map)
  show ?thesis
  proof (intro exI[of _ i] conjI allI impI)
    show "i < length act" by (rule il)
    show "select_parent act = Inr (act ! i, take i act @ drop (Suc i) act)" by (rule sel)
    show "i = 0" if "length act = 1" using that False by simp
    show "deviation (act ! i) \<le> deviation (act ! j)" if "j < length act" for j
      by (rule le[OF that])
    show "deviation (act ! i) < deviation (act ! j)" if "j < i" for j
      by (rule lt[OF that])
  qed
qed

text \<open>
  Claim C4. On every pass that reaches the selection, the open set being non-empty, one
  entry is popped and the others stay in their order: the only entry when there is
  exactly one, otherwise an entry of least deviation, and among several of least
  deviation the one of lowest index.
\<close>

theorem select_parent_best_first:
  assumes "act \<noteq> []"
  shows "\<exists>i<length act.
           select_parent act = Inr (act ! i, take i act @ drop (Suc i) act) \<and>
           (length act = 1 \<longrightarrow> i = 0) \<and>
           (\<forall>j<length act. deviation (act ! i) \<le> deviation (act ! j)) \<and>
           (\<forall>j<i. deviation (act ! i) < deviation (act ! j))"
  using assms by (rule select_parent_pops)

theorem select_parent_best_first_witness:
  "[direct_100, south_100, north_100] \<noteq> [] \<and>
   (\<exists>i<length [direct_100, south_100, north_100].
      select_parent [direct_100, south_100, north_100] =
        Inr ([direct_100, south_100, north_100] ! i,
             take i [direct_100, south_100, north_100] @
             drop (Suc i) [direct_100, south_100, north_100]) \<and>
      (length [direct_100, south_100, north_100] = 1 \<longrightarrow> i = 0) \<and>
      (\<forall>j<length [direct_100, south_100, north_100].
         deviation ([direct_100, south_100, north_100] ! i)
         \<le> deviation ([direct_100, south_100, north_100] ! j)) \<and>
      (\<forall>j<i. deviation ([direct_100, south_100, north_100] ! i)
             < deviation ([direct_100, south_100, north_100] ! j)))"
proof -
  have h: "[direct_100, south_100, north_100] \<noteq> []" by simp
  show ?thesis using h select_parent_best_first[OF h] by (rule conjI)
qed

section \<open>One pass of the loop and the loop\<close>

lemma expand_new:
  "expand T wind prio orig dest TAS obsDic parent allint = Inr new
   \<Longrightarrow> new \<noteq> [] \<and> length new \<le> 4"
  by (auto simp: expand_def Let_def registered_def split: sum.splits list.splits)

lemma select_parent_Inr:
  "select_parent act = Inr (parent, rest) \<Longrightarrow> act \<noteq> [] \<and> Suc (length rest) = length act"
proof -
  assume a: "select_parent act = Inr (parent, rest)"
  have ne: "act \<noteq> []"
  proof
    assume "act = []"
    with a show False by (simp add: select_parent_def)
  qed
  from select_parent_pops[OF ne] obtain i where
    "i < length act" "select_parent act = Inr (act ! i, take i act @ drop (Suc i) act)"
    by auto
  with a have "rest = take i act @ drop (Suc i) act" and "i < length act" by simp_all
  then have "Suc (length rest) = length act" by simp
  with ne show ?thesis by simp
qed

text \<open>The three ways a pass of the loop body ends without an exception.\<close>

lemma iteration_Inr:
  assumes "iteration T wind prio orig dest TAS obsDic s = Inr s'"
  obtains
    (fathom) parent rest where
      "length (active s) \<le> 500" and "select_parent (active s) = Inr (parent, rest)"
      and "incflag s = 1" and "fathomed prio parent (incumbent s) = Inr True"
      and "s' = s\<lparr>active := rest\<rparr>"
  | (branch) parent rest new where
      "length (active s) \<le> 500" and "select_parent (active s) = Inr (parent, rest)"
      and "incflag s = 1 \<longrightarrow> fathomed prio parent (incumbent s) = Inr False"
      and "filter (\<lambda>f. f \<noteq> []) (all_intersections T obsDic parent) \<noteq> []"
      and "expand T wind prio orig dest TAS obsDic parent (all_intersections T obsDic parent) = Inr new"
      and "s' = s\<lparr>active := rest @ new\<rparr>"
  | (settle) parent rest where
      "length (active s) \<le> 500" and "select_parent (active s) = Inr (parent, rest)"
      and "incflag s = 1 \<longrightarrow> fathomed prio parent (incumbent s) = Inr False"
      and "filter (\<lambda>f. f \<noteq> []) (all_intersections T obsDic parent) = []"
      and "record_incumbent prio parent (s\<lparr>active := rest\<rparr>) = Inr s'"
proof -
  from assms have le: "length (active s) \<le> 500"
    by (simp add: iteration_def split: if_splits)
  from assms le obtain parent rest where sel: "select_parent (active s) = Inr (parent, rest)"
    by (cases "select_parent (active s)") (auto simp: iteration_def)
  let ?f = "if incflag s = 1 then fathomed prio parent (incumbent s) else Inr False"
  from assms le sel obtain b where f: "?f = Inr b"
    by (cases ?f) (simp_all add: iteration_def)
  show thesis
  proof (cases b)
    case True
    with f have "incflag s = 1" "fathomed prio parent (incumbent s) = Inr True"
      by (simp_all split: if_splits)
    moreover from assms le sel f True have "s' = s\<lparr>active := rest\<rparr>"
      by (simp add: iteration_def)
    ultimately show ?thesis using le sel by (rule fathom[rotated 2])
  next
    case False
    with f have nf: "incflag s = 1 \<longrightarrow> fathomed prio parent (incumbent s) = Inr False"
      by (simp split: if_splits)
    show ?thesis
    proof (cases "filter (\<lambda>f. f \<noteq> []) (all_intersections T obsDic parent) = []")
      case True
      with assms le sel f False
      have "record_incumbent prio parent (s\<lparr>active := rest\<rparr>) = Inr s'"
        by (simp add: iteration_def Let_def)
      with le sel nf True show ?thesis by (rule settle)
    next
      case ne: False
      with assms le sel f False obtain new where
        "expand T wind prio orig dest TAS obsDic parent (all_intersections T obsDic parent) = Inr new"
        "s' = s\<lparr>active := rest @ new\<rparr>"
        by (cases "expand T wind prio orig dest TAS obsDic parent (all_intersections T obsDic parent)")
           (simp_all add: iteration_def Let_def)
      with le sel nf ne show ?thesis by (rule branch)
    qed
  qed
qed

lemma record_incumbent_Inr:
  assumes "record_incumbent prio parent s = Inr s'"
  shows "active s' = active s"
    and "incumbent s' = incumbent s \<or> incumbent s' = Some parent"
    and "incflag s = 0 \<Longrightarrow> incflag s' = 1 \<and> incumbent s' = Some parent"
    and "incflag s \<noteq> 0 \<Longrightarrow> incflag s' = incflag s"
  using assms by (auto simp: record_incumbent_def split: if_splits option.splits)

lemma search_invariant:
  assumes step: "\<And>s s'. P s \<Longrightarrow> active s \<noteq> [] \<Longrightarrow>
                   iteration T wind prio orig dest TAS obsDic s = Inr s' \<Longrightarrow> P s'"
    and "P s"
    and "search T wind prio orig dest TAS obsDic n s = Some (Inr s')"
  shows "P s' \<and> active s' = []"
  using assms(2,3)
proof (induction n arbitrary: s)
  case 0
  then show ?case by (simp split: if_splits)
next
  case (Suc n)
  show ?case
  proof (cases "active s = []")
    case True
    with Suc.prems show ?thesis by simp
  next
    case False
    with Suc.prems(2) obtain s1 where
      it: "iteration T wind prio orig dest TAS obsDic s = Inr s1"
      and rest: "search T wind prio orig dest TAS obsDic n s1 = Some (Inr s')"
      by (cases "iteration T wind prio orig dest TAS obsDic s") simp_all
    from step[OF Suc.prems(1) False it] have "P s1" .
    from Suc.IH[OF this rest] show ?thesis .
  qed
qed

lemma search_error:
  assumes step: "\<And>s s'. P s \<Longrightarrow> active s \<noteq> [] \<Longrightarrow>
                   iteration T wind prio orig dest TAS obsDic s = Inr s' \<Longrightarrow> P s'"
    and err: "\<And>s e. P s \<Longrightarrow> active s \<noteq> [] \<Longrightarrow>
                   iteration T wind prio orig dest TAS obsDic s = Inl e \<Longrightarrow> Q e"
    and "P s"
    and "search T wind prio orig dest TAS obsDic n s = Some (Inl e)"
  shows "Q e"
  using assms(3,4)
proof (induction n arbitrary: s)
  case 0
  then show ?case by (simp split: if_splits)
next
  case (Suc n)
  from Suc.prems(2) have ne: "active s \<noteq> []" by (auto split: if_splits)
  show ?case
  proof (cases "iteration T wind prio orig dest TAS obsDic s")
    case (Inl e')
    with Suc.prems(2) ne have "e' = e" by simp
    with err[OF Suc.prems(1) ne Inl] show ?thesis by simp
  next
    case (Inr s1)
    with Suc.prems(2) ne
    have rest: "search T wind prio orig dest TAS obsDic n s1 = Some (Inl e)" by simp
    from step[OF Suc.prems(1) ne Inr] have "P s1" .
    from Suc.IH[OF this rest] show ?thesis .
  qed
qed

section \<open>Exceptions\<close>

lemma py_get_Inl: "py_get xs i = Inl e \<Longrightarrow> e = IndexError"
  by (simp add: py_get_def split: if_splits)

lemma checkdists_Inl:
  "checkdists T ob p1 p2 refpt tab = Inl e \<Longrightarrow> e = IndexError"
  by (induction tab arbitrary: e) (auto split: sum.splits dest: py_get_Inl)

lemma tie_options_Inl:
  "tie_options T obsDic allint p1 p2 refpt indices distlist = Inl e
   \<Longrightarrow> e = IndexError \<or> e = ValueError"
  by (induction indices arbitrary: distlist e)
     (auto split: sum.splits option.splits dest: checkdists_Inl)

lemma branch_obstacle_Inl:
  "branch_obstacle T obsDic parent allint = Inl e \<Longrightarrow> e = IndexError \<or> e = ValueError"
  by (auto simp: branch_obstacle_def Let_def
           split: sum.splits option.splits if_splits
           dest: py_get_Inl tie_options_Inl)

lemma expand_Inl:
  "expand T wind prio orig dest TAS obsDic parent allint = Inl e
   \<Longrightarrow> e = IndexError \<or> e = ValueError"
  by (auto simp: expand_def Let_def split: sum.splits list.splits dest: branch_obstacle_Inl)

lemma select_parent_Inl: "select_parent act = Inl e \<Longrightarrow> e = ValueError"
  by (auto simp: select_parent_def Let_def split: if_splits option.splits)

lemma fathomed_Inl: "fathomed prio parent inc = Inl e \<Longrightarrow> e = AttributeError \<and> inc = None"
  by (auto simp: fathomed_def split: if_splits option.splits)

lemma record_incumbent_Inl:
  "record_incumbent prio parent s = Inl e
   \<Longrightarrow> e = AttributeError \<and> incumbent s = None \<and> incflag s \<noteq> 0"
  by (auto simp: record_incumbent_def split: if_splits option.splits)

lemma iteration_Inl:
  assumes "iteration T wind prio orig dest TAS obsDic s = Inl e"
  shows "(e = ImpossibleToFindRoute \<and> length (active s) > 500) \<or>
         e = IndexError \<or> e = ValueError \<or>
         (e = AttributeError \<and> incumbent s = None \<and> incflag s \<noteq> 0)"
proof (cases "length (active s) > 500")
  case True
  with assms show ?thesis by (simp add: iteration_def)
next
  case le: False
  show ?thesis
  proof (cases "select_parent (active s)")
    case (Inl e')
    with assms le have "e = e'" by (simp add: iteration_def)
    with select_parent_Inl[OF Inl] show ?thesis by simp
  next
    case (Inr pr)
    obtain parent rest where pr: "pr = (parent, rest)" by (cases pr)
    let ?f = "if incflag s = 1 then fathomed prio parent (incumbent s) else Inr False"
    show ?thesis
    proof (cases ?f)
      case (Inl e')
      with assms le Inr pr have "e = e'" by (simp add: iteration_def)
      moreover from Inl have "incflag s = 1" "fathomed prio parent (incumbent s) = Inl e'"
        by (simp_all split: if_splits)
      ultimately show ?thesis using fathomed_Inl[of prio parent "incumbent s" e'] by simp
    next
      case f: (Inr b)
      show ?thesis
      proof (cases b)
        case True
        with assms le Inr pr f show ?thesis by (simp add: iteration_def)
      next
        case False
        show ?thesis
        proof (cases "filter (\<lambda>f. f \<noteq> []) (all_intersections T obsDic parent) = []")
          case True
          with assms le Inr pr f False
          have "record_incumbent prio parent (s\<lparr>active := rest\<rparr>) = Inl e"
            by (simp add: iteration_def Let_def)
          from record_incumbent_Inl[OF this] show ?thesis by simp
        next
          case ne: False
          with assms le Inr pr f False
          have "expand T wind prio orig dest TAS obsDic parent
                  (all_intersections T obsDic parent) = Inl e"
            by (cases "expand T wind prio orig dest TAS obsDic parent
                         (all_intersections T obsDic parent)")
               (simp_all add: iteration_def Let_def)
          from expand_Inl[OF this] show ?thesis by auto
        qed
      qed
    qed
  qed
qed

section \<open>Feasibility of the result\<close>

lemma det_search_Some:
  assumes "det_search T fuel active0 lat0 lon0 altitude TAS latdest londest inputObs = Some r"
  obtains
    (early) e where "r = Inl e" and "e = ZeroDivisionError \<or> e = IndexError"
  | (run) directrt s0 where
      "direct_route T lat0 lon0 TAS latdest londest (obstacles T inputObs) = Inr directrt"
      and "seed T active0 directrt = Inr s0"
      and "search T (windfield T lat0 lon0 latdest londest) optimizationpriority
             (Pos (LatLon2XY T lat0 lon0)) (Pos (LatLon2XY T latdest londest)) TAS
             (obstacles T inputObs) fuel s0 = Some r"
proof (cases "direct_route T lat0 lon0 TAS latdest londest (obstacles T inputObs)")
  case (Inl e)
  then have "e = ZeroDivisionError"
    by (auto simp: direct_route_def Let_def split: prod.splits if_splits)
  moreover from assms Inl have "r = Inl e" by (simp add: det_search_def Let_def)
  ultimately show ?thesis using early by simp
next
  case d: (Inr directrt)
  show ?thesis
  proof (cases "seed T active0 directrt")
    case (Inl e)
    then have "e = IndexError" by (simp add: seed_def Let_def split: if_splits)
    moreover from assms d Inl have "r = Inl e" by (simp add: det_search_def Let_def)
    ultimately show ?thesis using early by simp
  next
    case (Inr s0)
    with assms d show ?thesis by (intro run[of directrt s0]) (simp_all add: det_search_def Let_def)
  qed
qed

lemma seed_Inr:
  "seed T active0 directrt = Inr s0 \<Longrightarrow>
     active s0 \<noteq> [] \<and> incflag s0 = 0 \<and> incumbent s0 = None"
  by (auto simp: seed_def Let_def split: if_splits)

lemma iteration_obstacle_free:
  assumes inv: "\<forall>r. incumbent s = Some r \<longrightarrow> obstacle_free T obsDic r"
    and it: "iteration T wind prio orig dest TAS obsDic s = Inr s'"
  shows "\<forall>r. incumbent s' = Some r \<longrightarrow> obstacle_free T obsDic r"
  using it
proof (cases rule: iteration_Inr)
  case (fathom parent rest)
  with inv show ?thesis by simp
next
  case (branch parent rest new)
  with inv show ?thesis by simp
next
  case (settle parent rest)
  from settle(4) have "\<forall>x \<in> set (all_intersections T obsDic parent). x = []"
    by (simp add: filter_empty_conv)
  then have free: "obstacle_free T obsDic parent"
    by (simp add: obstacle_free_def all_intersections_def)
  from record_incumbent_Inr(2)[OF settle(5)]
  have "incumbent s' = incumbent s \<or> incumbent s' = Some parent" by simp
  with inv free show ?thesis by auto
qed

text \<open>
  Claim C1. Whenever \<open>det_path_planning\<close> returns a waypoint sequence, that sequence is
  the projection back to latitude and longitude of the waypoints of the incumbent the
  search ended with, and \<open>intersectroute\<close> of every obstacle reports no intersection
  for that incumbent.
\<close>

theorem det_path_planning_feasible:
  assumes "det_path_planning T fuel active0 lat0 lon0 altitude TAS latdest londest inputObs
             = Some (Inr wps)"
  shows "\<exists>s inc.
           det_search T fuel active0 lat0 lon0 altitude TAS latdest londest inputObs
             = Some (Inr s) \<and>
           incumbent s = Some inc \<and>
           wps = map (\<lambda>element. XY2LatLon T (fst element) (snd element)) (waypoints inc) \<and>
           obstacle_free T (obstacles T inputObs) inc"
proof -
  from assms obtain s where
    ds: "det_search T fuel active0 lat0 lon0 altitude TAS latdest londest inputObs
           = Some (Inr s)"
    and fin: "finish T s = Inr wps"
    by (auto simp: det_path_planning_def split: option.splits sum.splits)
  from fin obtain inc where inc: "incumbent s = Some inc"
    and wps: "wps = map (\<lambda>element. XY2LatLon T (fst element) (snd element)) (waypoints inc)"
    by (auto simp: finish_def split: option.splits if_splits)
  from ds have "\<forall>r. incumbent s = Some r \<longrightarrow> obstacle_free T (obstacles T inputObs) r"
  proof (cases rule: det_search_Some)
    case (early e)
    then show ?thesis by simp
  next
    case (run directrt s0)
    let ?P = "\<lambda>s. \<forall>r. incumbent s = Some r \<longrightarrow> obstacle_free T (obstacles T inputObs) r"
    have "?P s0" using seed_Inr[OF run(2)] by simp
    moreover have "?P b" if "?P a" and
      "iteration T (windfield T lat0 lon0 latdest londest) optimizationpriority
         (Pos (LatLon2XY T lat0 lon0)) (Pos (LatLon2XY T latdest londest)) TAS
         (obstacles T inputObs) a = Inr b" for a b
      using that by (rule iteration_obstacle_free)
    ultimately have "?P s \<and> active s = []"
      using run(3) by (intro search_invariant[of ?P]) assumption+
    then show ?thesis by simp
  qed
  with ds inc wps show ?thesis by simp
qed

text \<open>The scenario of the specification: the call returns the detour south of the square.\<close>

theorem det_path_planning_feasible_witness:
  "det_path_planning demo_tools 3 [old_route] 0 0 0 100 0 (5 / 3) [square]
     = Some (Inr [(0, 0), (- (1 / 6), 2 / 3), (- (1 / 6), 1), (0, 5 / 3)]) \<and>
   (\<exists>s inc.
      det_search demo_tools 3 [old_route] 0 0 0 100 0 (5 / 3) [square] = Some (Inr s) \<and>
      incumbent s = Some inc \<and>
      [(0, 0), (- (1 / 6), 2 / 3), (- (1 / 6), 1), (0, 5 / 3)]
        = map (\<lambda>element. XY2LatLon demo_tools (fst element) (snd element)) (waypoints inc) \<and>
      obstacle_free demo_tools (obstacles demo_tools [square]) inc)"
proof -
  have h: "det_path_planning demo_tools 3 [old_route] 0 0 0 100 0 (5 / 3) [square]
     = Some (Inr [(0, 0), (- (1 / 6), 2 / 3), (- (1 / 6), 1), (0, 5 / 3)])"
    by code_simp
  show ?thesis using h det_path_planning_feasible[OF h] by (rule conjI)
qed

section \<open>The incumbent at the exit\<close>

lemma iteration_coherent:
  assumes c: "coherent s" and it: "iteration T wind prio orig dest TAS obsDic s = Inr s'"
  shows "coherent s' \<and> (active s' = [] \<longrightarrow> incflag s' = 1)"
  using it
proof (cases rule: iteration_Inr)
  case (fathom parent rest)
  with c show ?thesis by (simp add: coherent_def)
next
  case (branch parent rest new)
  from expand_new[OF branch(5)] have "new \<noteq> []" by simp
  with branch c show ?thesis by (simp add: coherent_def)
next
  case (settle parent rest)
  let ?s = "s\<lparr>active := rest\<rparr>"
  show ?thesis
  proof (cases "incflag s = 0")
    case True
    with record_incumbent_Inr(3)[OF settle(5)] show ?thesis by (simp add: coherent_def)
  next
    case False
    with c have one: "incflag s = 1" and inc: "incumbent s \<noteq> None"
      by (auto simp: coherent_def)
    from record_incumbent_Inr(4)[OF settle(5)] False have "incflag s' = 1"
      using one by simp
    moreover from record_incumbent_Inr(2)[OF settle(5)] inc have "incumbent s' \<noteq> None"
      by auto
    ultimately show ?thesis by (simp add: coherent_def)
  qed
qed

lemma iteration_no_AttributeError:
  assumes "coherent s" and "iteration T wind prio orig dest TAS obsDic s = Inl e"
  shows "e \<noteq> AttributeError"
  using iteration_Inl[OF assms(2)] assms(1) by (auto simp: coherent_def)

text \<open>
  Claim C9. Whenever the loop of \<open>det_path_planning\<close> ends with the open set empty, a
  route has been recorded (\<open>incflag\<close> is 1 and \<open>incumbent\<close> is a route), and the call never
  fails on reading \<open>incumbent.waypoints\<close> off the initial \<open>float('inf')\<close>.
\<close>

theorem search_exit_has_incumbent:
  "(\<forall>s. det_search T fuel active0 lat0 lon0 altitude TAS latdest londest inputObs
          = Some (Inr s)
        \<longrightarrow> active s = [] \<and> incflag s = 1 \<and> (\<exists>inc. incumbent s = Some inc)) \<and>
   det_path_planning T fuel active0 lat0 lon0 altitude TAS latdest londest inputObs
     \<noteq> Some (Inl AttributeError)"
proof -
  let ?run = "det_search T fuel active0 lat0 lon0 altitude TAS latdest londest inputObs"
  let ?it = "iteration T (windfield T lat0 lon0 latdest londest) optimizationpriority
         (Pos (LatLon2XY T lat0 lon0)) (Pos (LatLon2XY T latdest londest)) TAS
         (obstacles T inputObs)"
  have step: "settled b" if "settled a" and "?it a = Inr b" for a b
    using iteration_coherent[OF _ that(2)] that(1) by (simp add: settled_def)
  have err: "e \<noteq> AttributeError" if "settled a" and "?it a = Inl e" for a e
    using iteration_no_AttributeError[OF _ that(2)] that(1) by (simp add: settled_def)
  have good: "active s = [] \<and> incflag s = 1 \<and> (\<exists>inc. incumbent s = Some inc)"
    if ds: "?run = Some (Inr s)" for s
    using ds
  proof (cases rule: det_search_Some)
    case (early e)
    then show ?thesis by simp
  next
    case (run directrt s0)
    have "settled s0" using seed_Inr[OF run(2)] by (simp add: settled_def coherent_def)
    have "settled s \<and> active s = []"
    proof (rule search_invariant[where P = settled, OF _ \<open>settled s0\<close> run(3)])
      fix a b
      assume "settled a" and "?it a = Inr b"
      then show "settled b" by (rule step)
    qed
    then show ?thesis by (auto simp: settled_def coherent_def)
  qed
  have bad: "?run \<noteq> Some (Inl AttributeError)"
  proof
    assume ds: "?run = Some (Inl AttributeError)"
    then show False
    proof (cases rule: det_search_Some)
      case (early e)
      then show ?thesis by auto
    next
      case (run directrt s0)
      have "settled s0" using seed_Inr[OF run(2)] by (simp add: settled_def coherent_def)
      have "AttributeError \<noteq> AttributeError"
      proof (rule search_error[where P = settled and Q = "\<lambda>e. e \<noteq> AttributeError",
              OF _ _ \<open>settled s0\<close> run(3)])
        fix a b
        assume "settled a" and "?it a = Inr b"
        then show "settled b" by (rule step)
      next
        fix a e
        assume "settled a" and "?it a = Inl e"
        then show "e \<noteq> AttributeError" by (rule err)
      qed
      then show ?thesis by simp
    qed
  qed
  have "det_path_planning T fuel active0 lat0 lon0 altitude TAS latdest londest inputObs
          \<noteq> Some (Inl AttributeError)"
  proof
    assume a: "det_path_planning T fuel active0 lat0 lon0 altitude TAS latdest londest inputObs
          = Some (Inl AttributeError)"
    show False
    proof (cases ?run)
      case None
      with a show ?thesis by (simp add: det_path_planning_def)
    next
      case (Some r)
      show ?thesis
      proof (cases r)
        case (Inl e)
        with a Some bad show ?thesis by (simp add: det_path_planning_def)
      next
        case (Inr s)
        from good[of s] Some Inr obtain inc where "incumbent s = Some inc" by auto
        with a Some Inr show ?thesis
          by (simp add: det_path_planning_def finish_def split: if_splits)
      qed
    qed
  qed
  moreover have "\<forall>s. ?run = Some (Inr s) \<longrightarrow>
      active s = [] \<and> incflag s = 1 \<and> (\<exists>inc. incumbent s = Some inc)"
  proof (intro allI impI)
    fix s assume "?run = Some (Inr s)"
    then show "active s = [] \<and> incflag s = 1 \<and> (\<exists>inc. incumbent s = Some inc)"
      by (rule good)
  qed
  ultimately show ?thesis by (rule conjI[rotated])
qed

text \<open>In the scenario the loop ends with the southern detour recorded.\<close>

theorem search_exit_has_incumbent_witness:
  "det_search demo_tools 3 [old_route] 0 0 0 100 0 (5 / 3) [square]
     = Some (Inr \<lparr>active = [], incflag = 1, incumbent = Some south_100\<rparr>) \<and>
   active \<lparr>active = [], incflag = 1, incumbent = Some south_100\<rparr> = [] \<and>
   incflag \<lparr>active = [], incflag = 1, incumbent = Some south_100\<rparr> = 1 \<and>
   (\<exists>inc. incumbent \<lparr>active = [], incflag = 1, incumbent = Some south_100\<rparr> = Some inc)"
proof -
  have h: "det_search demo_tools 3 [old_route] 0 0 0 100 0 (5 / 3) [square]
     = Some (Inr \<lparr>active = [], incflag = 1, incumbent = Some south_100\<rparr>)"
    by code_simp
  have "\<forall>s. det_search demo_tools 3 [old_route] 0 0 0 100 0 (5 / 3) [square] = Some (Inr s)
        \<longrightarrow> active s = [] \<and> incflag s = 1 \<and> (\<exists>inc. incumbent s = Some inc)"
    by (rule search_exit_has_incumbent[THEN conjunct1])
  from this[THEN spec, THEN mp, OF h] have "active \<lparr>active = [], incflag = 1, incumbent = Some south_100\<rparr> = [] \<and>
   incflag \<lparr>active = [], incflag = 1, incumbent = Some south_100\<rparr> = 1 \<and>
   (\<exists>inc. incumbent \<lparr>active = [], incflag = 1, incumbent = Some south_100\<rparr> = Some inc)"
    .
  with h show ?thesis by (rule conjI)
qed

section \<open>The cap, the bound check and the seed\<close>





text \<open>
  Claim C5. When an incumbent exists and the cost of the popped route, under the metric
  of the priority (distance for 0, time for 1), is at least the cost of the incumbent,
  the pass only removes the popped route from the open set: nothing is appended, and
  \<open>incflag\<close> and \<open>incumbent\<close> are as before. The equation holds for all tools, so no result
  of \<open>intersectroute\<close> or of the detour construction enters it.
\<close>

theorem fathom_discards:
  assumes "length (active s) \<le> 500"
    and "select_parent (active s) = Inr (parent, rest)"
    and "incflag s = 1"
    and "incumbent s = Some inc"
    and "(prio = 0 \<and> distance parent \<ge> distance inc) \<or>
         (prio = 1 \<and> time parent \<ge> time inc)"
  shows "iteration T wind prio orig dest TAS obsDic s = Inr (s\<lparr>active := rest\<rparr>)"
proof -
  from assms(4,5) have "fathomed prio parent (incumbent s) = Inr True"
    by (auto simp: fathomed_def)
  with assms(1,2,3) show ?thesis by (simp add: iteration_def)
qed

text \<open>The northern detour is popped when the southern one, of the same length, is the
  incumbent.\<close>

theorem fathom_discards_witness:
  "length (active \<lparr>active = [north_100], incflag = 1, incumbent = Some south_100\<rparr>) \<le> 500 \<and>
   select_parent (active \<lparr>active = [north_100], incflag = 1, incumbent = Some south_100\<rparr>)
     = Inr (north_100, []) \<and>
   incflag \<lparr>active = [north_100], incflag = 1, incumbent = Some south_100\<rparr> = 1 \<and>
   incumbent \<lparr>active = [north_100], incflag = 1, incumbent = Some south_100\<rparr>
     = Some south_100 \<and>
   distance north_100 \<ge> distance south_100 \<and>
   iteration demo_tools () 0 (Pos (0, 0)) (Pos (100, 0)) 100 (obstacles demo_tools [square])
     \<lparr>active = [north_100], incflag = 1, incumbent = Some south_100\<rparr>
     = Inr \<lparr>active = [], incflag = 1, incumbent = Some south_100\<rparr>"
proof -
  let ?s = "\<lparr>active = [north_100], incflag = 1, incumbent = Some south_100\<rparr>"
  have h1: "length (active ?s) \<le> 500" by simp
  have h2: "select_parent (active ?s) = Inr (north_100, [])"
    by (simp add: select_parent_def)
  have h3: "incflag ?s = 1" by simp
  have h4: "incumbent ?s = Some south_100" by simp
  have h5: "distance north_100 \<ge> distance south_100"
    by (simp add: north_100_def south_100_def)
  then have h5': "((0::nat) = 0 \<and> distance north_100 \<ge> distance south_100) \<or>
         ((0::nat) = 1 \<and> time north_100 \<ge> time south_100)" by simp
  have "iteration demo_tools () 0 (Pos (0, 0)) (Pos (100, 0)) 100
          (obstacles demo_tools [square]) ?s = Inr (?s\<lparr>active := []\<rparr>)"
    by (rule fathom_discards[OF h1 h2 h3 h4 h5'])
  then have c: "iteration demo_tools () 0 (Pos (0, 0)) (Pos (100, 0)) 100
          (obstacles demo_tools [square]) ?s
          = Inr \<lparr>active = [], incflag = 1, incumbent = Some south_100\<rparr>" by simp
  from h1 h2 h3 h4 h5 c show ?thesis by (intro conjI)
qed

lemma det_search_seeded:
  assumes "direct_route T lat0 lon0 TAS latdest londest (obstacles T inputObs) = Inr directrt"
  shows "det_search T fuel active0 lat0 lon0 altitude TAS latdest londest inputObs =
     (if Route_registers T then
        search T (windfield T lat0 lon0 latdest londest) optimizationpriority
          (Pos (LatLon2XY T lat0 lon0)) (Pos (LatLon2XY T latdest londest)) TAS
          (obstacles T inputObs) fuel
          \<lparr>active = active0 @ [directrt], incflag = 0, incumbent = None\<rparr>
      else if active0 = [] then Some (Inl IndexError)
      else
        search T (windfield T lat0 lon0 latdest londest) optimizationpriority
          (Pos (LatLon2XY T lat0 lon0)) (Pos (LatLon2XY T latdest londest)) TAS
          (obstacles T inputObs) fuel
          \<lparr>active = butlast active0 @ [directrt], incflag = 0, incumbent = None\<rparr>)"
proof (cases "Route_registers T")
  case True
  with assms show ?thesis
    by (simp add: det_search_def seed_def registered_def Let_def)
next
  case False
  show ?thesis
  proof (cases "active0 = []")
    case True
    with assms False show ?thesis
      by (simp add: det_search_def seed_def registered_def Let_def)
  next
    case ne: False
    then obtain xs x where "active0 = xs @ [x]" by (cases active0 rule: rev_cases) auto
    with assms False show ?thesis
      by (simp add: det_search_def seed_def registered_def Let_def)
  qed
qed





section \<open>No obstacles\<close>

text \<open>With no obstacle and an open set that is the direct route alone, the first pass
  pops the direct route, branches on nothing and records it, the loop ends there, and the
  call returns the waypoints of the direct route projected back. The open set is the
  direct route alone when the constructor appends and \<open>Route.active\<close> is empty at entry,
  or when it does not and \<open>Route.active\<close> holds one entry.\<close>

lemma no_obstacle_direct_route:
  assumes d: "direct_route T lat0 lon0 TAS latdest londest (obstacles T []) = Inr directrt"
    and w: "waypoints directrt \<noteq> []"
    and one: "length (active0 @ registered T directrt) = 1"
  shows "seed T active0 directrt
           = Inr \<lparr>active = [directrt], incflag = 0, incumbent = None\<rparr> \<and>
         iteration T (windfield T lat0 lon0 latdest londest) optimizationpriority
           (Pos (LatLon2XY T lat0 lon0)) (Pos (LatLon2XY T latdest londest)) TAS
           (obstacles T []) \<lparr>active = [directrt], incflag = 0, incumbent = None\<rparr>
           = Inr \<lparr>active = [], incflag = 1, incumbent = Some directrt\<rparr> \<and>
         det_search T (Suc n) active0 lat0 lon0 altitude TAS latdest londest []
           = Some (Inr \<lparr>active = [], incflag = 1, incumbent = Some directrt\<rparr>) \<and>
         det_path_planning T (Suc n) active0 lat0 lon0 altitude TAS latdest londest []
           = Some (Inr (map (\<lambda>element. XY2LatLon T (fst element) (snd element))
                          (waypoints directrt)))"
proof -
  let ?s0 = "\<lparr>active = [directrt], incflag = 0, incumbent = None\<rparr>"
  let ?s1 = "\<lparr>active = [], incflag = 1, incumbent = Some directrt\<rparr>"
  let ?it = "iteration T (windfield T lat0 lon0 latdest londest) optimizationpriority
           (Pos (LatLon2XY T lat0 lon0)) (Pos (LatLon2XY T latdest londest)) TAS
           (obstacles T [])"
  from one obtain x where a0: "active0 @ registered T directrt = [x]"
    by (cases "active0 @ registered T directrt") auto
  then have sd: "seed T active0 directrt = Inr ?s0" by (simp add: seed_def Let_def)
  have it: "?it ?s0 = Inr ?s1"
    by (simp add: iteration_def select_parent_def obstacles_def all_intersections_def
          record_incumbent_def)
  have "search T (windfield T lat0 lon0 latdest londest) optimizationpriority
           (Pos (LatLon2XY T lat0 lon0)) (Pos (LatLon2XY T latdest londest)) TAS
           (obstacles T []) (Suc n) ?s0 = Some (Inr ?s1)"
    using it by (cases n) simp_all
  with d sd have ds: "det_search T (Suc n) active0 lat0 lon0 altitude TAS latdest londest []
           = Some (Inr ?s1)"
    by (simp add: det_search_def Let_def)
  then have "det_path_planning T (Suc n) active0 lat0 lon0 altitude TAS latdest londest []
           = Some (Inr (map (\<lambda>element. XY2LatLon T (fst element) (snd element))
                          (waypoints directrt)))"
    using w by (simp add: det_path_planning_def finish_def)
  with sd it ds show ?thesis by simp
qed

text \<open>Whatever the tools and the obstacles: a call that finds more than 500 entries in
  \<open>Route.active\<close> raises the exception of the cap in its first pass.\<close>

lemma stale_entries_raise:
  assumes d: "direct_route T lat0 lon0 TAS latdest londest (obstacles T inputObs) = Inr directrt"
    and l: "length active0 > 500"
  shows "det_path_planning T (Suc n) active0 lat0 lon0 altitude TAS latdest londest inputObs
           = Some (Inl ImpossibleToFindRoute)"
proof -
  from l have ne: "active0 \<noteq> []" by auto
  let ?W = "windfield T lat0 lon0 latdest londest"
  let ?O = "Pos (LatLon2XY T lat0 lon0)" and ?D = "Pos (LatLon2XY T latdest londest)"
  have big: "search T ?W optimizationpriority ?O ?D TAS (obstacles T inputObs) (Suc n) u
          = Some (Inl ImpossibleToFindRoute)" if "length (active u) > 500" for u
  proof -
    from that have "active u \<noteq> []" by auto
    moreover from that have "iteration T ?W optimizationpriority ?O ?D TAS
        (obstacles T inputObs) u = Inl ImpossibleToFindRoute" by (simp add: iteration_def)
    ultimately show ?thesis by simp
  qed
  have "det_search T (Suc n) active0 lat0 lon0 altitude TAS latdest londest inputObs
          = Some (Inl ImpossibleToFindRoute)"
  proof (cases "Route_registers T")
    case True
    let ?u = "\<lparr>active = active0 @ [directrt], incflag = 0, incumbent = None\<rparr>"
    have "length (active ?u) > 500" using l by simp
    from big[OF this] det_search_seeded[OF d, of "Suc n" active0 altitude] True
    show ?thesis by (simp only: if_True)
  next
    case False
    let ?u = "\<lparr>active = butlast active0 @ [directrt], incflag = 0, incumbent = None\<rparr>"
    have "length (active ?u) > 500" using l by simp
    from big[OF this] det_search_seeded[OF d, of "Suc n" active0 altitude] False ne
    show ?thesis by (simp only: if_False)
  qed
  then show ?thesis by (simp add: det_path_planning_def)
qed

text \<open>
  Claim C7: the code breaks it on a list it has itself left behind. \<open>Route.active\<close> is
  never cleared, so a call that ended on the cap leaves more than 500 entries in it.
  The next call, made without any obstacle, raises "Impossible to find a route" in its
  first pass instead of returning the direct route, whatever the constructor does; and
  a call that finds two entries searches the one it does not replace and returns its
  waypoints, not those of the direct route, which are (0, 0), (0, 5 / 3).
\<close>

theorem no_obstacle_failing_input:
  "det_path_planning demo_tools 1 (replicate 501 old_route) 0 0 0 100 0 (5 / 3) []
     = Some (Inl ImpossibleToFindRoute) \<and>
   det_path_planning registering_tools 1 (replicate 501 old_route) 0 0 0 100 0 (5 / 3) []
     = Some (Inl ImpossibleToFindRoute) \<and>
   det_path_planning demo_tools 2 [old_route, old_route] 0 0 0 100 0 (5 / 3) []
     = Some (Inr [(0, 0), (0, 1 / 10)]) \<and>
   det_path_planning registering_tools 3 [old_route, old_route] 0 0 0 100 0 (5 / 3) []
     = Some (Inr [(0, 0), (0, 1 / 10)]) \<and>
   direct_route demo_tools 0 0 100 0 (5 / 3) (obstacles demo_tools []) = Inr direct_100 \<and>
   map (\<lambda>element. XY2LatLon demo_tools (fst element) (snd element)) (waypoints direct_100)
     = [(0, 0), (0, 5 / 3)]"
  by code_simp

section \<open>The metric of the selection\<close>

lemma iteration_distance_bound:
  assumes c: "coherent s" and b: "\<exists>b. incumbent s = Some b \<and> distance b \<le> d"
    and it: "iteration T wind 0 orig dest TAS obsDic s = Inr s'"
  shows "\<exists>b. incumbent s' = Some b \<and> distance b \<le> d"
  using it
proof (cases rule: iteration_Inr)
  case (fathom parent rest)
  with b show ?thesis by simp
next
  case (branch parent rest new)
  with b show ?thesis by simp
next
  case (settle parent rest)
  from b c have "incflag s = 1" by (auto simp: coherent_def)
  with settle(5) b show ?thesis
    by (auto simp: record_incumbent_def split: if_splits option.splits)
qed

text \<open>
  Claim C8, as amended. The optimization priority is not an argument of
  \<open>det_path_planning\<close>: it is the constant 0 (distance) of the function body. The route
  the search ends with is selected by distance: every route that a pass pops and does not
  branch on (it passes the intersection test, or it is fathomed) is at least as long as
  the incumbent at the end of the search.
\<close>

theorem distance_selects_route:
  assumes run: "search T wind optimizationpriority orig dest TAS obsDic (Suc n) s
                  = Some (Inr s')"
    and c: "coherent s"
    and le: "length (active s) \<le> 500"
    and sel: "select_parent (active s) = Inr (p, rest)"
    and nb: "filter (\<lambda>f. f \<noteq> []) (all_intersections T obsDic p) = [] \<or>
             (incflag s = 1 \<and> fathomed optimizationpriority p (incumbent s) = Inr True)"
  shows "optimizationpriority = 0 \<and>
         (\<exists>b. incumbent s' = Some b \<and> distance b \<le> distance p)"
proof -
  let ?P = "\<lambda>s. coherent s \<and> (\<exists>b. incumbent s = Some b \<and> distance b \<le> distance p)"
  have p0: "optimizationpriority = 0" by (simp add: optimizationpriority_def)
  from sel have ne: "active s \<noteq> []" using select_parent_Inr by blast
  with run obtain s1 where it: "iteration T wind 0 orig dest TAS obsDic s = Inr s1"
    and rest: "search T wind 0 orig dest TAS obsDic n s1 = Some (Inr s')"
    by (cases "iteration T wind 0 orig dest TAS obsDic s") (simp_all add: p0)
  have c1: "coherent s1" using iteration_coherent[OF c it] by simp
  have "\<exists>b. incumbent s1 = Some b \<and> distance b \<le> distance p"
    using it
  proof (cases rule: iteration_Inr)
    case (fathom parent rest')
    with sel have "parent = p" by simp
    with fathom show ?thesis
      by (auto simp: fathomed_def split: option.splits)
  next
    case (branch parent rest' new)
    with sel have "parent = p" by simp
    with branch nb p0 show ?thesis by simp
  next
    case (settle parent rest')
    with sel have pp: "parent = p" by simp
    show ?thesis
    proof (cases "incflag s = 0")
      case True
      with record_incumbent_Inr(3)[OF settle(5)] pp show ?thesis by simp
    next
      case False
      with settle(5) pp show ?thesis
        by (auto simp: record_incumbent_def split: if_splits option.splits)
    qed
  qed
  with c1 have "?P s1" by simp
  moreover have "?P b" if "?P a" and "iteration T wind 0 orig dest TAS obsDic a = Inr b" for a b
    using iteration_coherent[OF _ that(2)] iteration_distance_bound[OF _ _ that(2)] that(1)
    by simp
  ultimately have "?P s' \<and> active s' = []"
    using rest by (intro search_invariant[of ?P]) assumption+
  with p0 show ?thesis by simp
qed

text \<open>The open set after the first pass of the scenario.\<close>

theorem distance_selects_route_witness:
  "search demo_tools () optimizationpriority (Pos (0, 0)) (Pos (100, 0)) 100
       (obstacles demo_tools [square]) (Suc 1)
       \<lparr>active = [south_100, north_100], incflag = 0, incumbent = None\<rparr>
     = Some (Inr \<lparr>active = [], incflag = 1, incumbent = Some south_100\<rparr>) \<and>
   coherent \<lparr>active = [south_100, north_100], incflag = 0, incumbent = None\<rparr> \<and>
   length (active \<lparr>active = [south_100, north_100], incflag = 0, incumbent = None\<rparr>) \<le> 500 \<and>
   select_parent (active \<lparr>active = [south_100, north_100], incflag = 0, incumbent = None\<rparr>)
     = Inr (south_100, [north_100]) \<and>
   filter (\<lambda>f. f \<noteq> []) (all_intersections demo_tools (obstacles demo_tools [square]) south_100)
     = [] \<and>
   optimizationpriority = 0 \<and>
   (\<exists>b. incumbent \<lparr>active = [], incflag = 1, incumbent = Some south_100\<rparr> = Some b \<and>
        distance b \<le> distance south_100)"
proof -
  let ?s = "\<lparr>active = [south_100, north_100], incflag = 0, incumbent = None\<rparr>"
  have h1: "search demo_tools () optimizationpriority (Pos (0, 0)) (Pos (100, 0)) 100
       (obstacles demo_tools [square]) (Suc 1) ?s
     = Some (Inr \<lparr>active = [], incflag = 1, incumbent = Some south_100\<rparr>)"
    by code_simp
  have h2: "coherent ?s" by (simp add: coherent_def)
  have h3: "length (active ?s) \<le> 500" by simp
  have h4: "select_parent (active ?s) = Inr (south_100, [north_100])" by code_simp
  have h5: "filter (\<lambda>f. f \<noteq> [])
      (all_intersections demo_tools (obstacles demo_tools [square]) south_100) = []"
    by code_simp
  then have h5': "filter (\<lambda>f. f \<noteq> [])
      (all_intersections demo_tools (obstacles demo_tools [square]) south_100) = [] \<or>
      (incflag ?s = 1 \<and> fathomed optimizationpriority south_100 (incumbent ?s) = Inr True)"
    by (rule disjI1)
  note c = distance_selects_route[OF h1 h2 h3 h4 h5']
  from h1 h2 h3 h4 h5 c[THEN conjunct1] c[THEN conjunct2] show ?thesis by (intro conjI)
qed

text \<open>Claim C8 as stated fails. Under \<open>gust_tools\<close> the two detours of the scenario are
  equally long and the northern one is an hour faster. The call returns the southern one;
  the same search run with priority 1 (time) from the same seeded open set ends with the
  northern one.\<close>

theorem priority_counterexample:
  "det_search gust_tools 3 [old_route] 0 0 0 100 0 (5 / 3) [square]
     = Some (Inr \<lparr>active = [], incflag = 1, incumbent = Some gust_south\<rparr>) \<and>
   det_path_planning gust_tools 3 [old_route] 0 0 0 100 0 (5 / 3) [square]
     = Some (Inr [(0, 0), (- (1 / 6), 2 / 3), (- (1 / 6), 1), (0, 5 / 3)]) \<and>
   seed gust_tools [old_route] direct_100
     = Inr \<lparr>active = [direct_100], incflag = 0, incumbent = None\<rparr> \<and>
   search gust_tools () 1 (Pos (0, 0)) (Pos (100, 0)) 100 (obstacles gust_tools [square]) 3
       \<lparr>active = [direct_100], incflag = 0, incumbent = None\<rparr>
     = Some (Inr \<lparr>active = [], incflag = 1, incumbent = Some gust_north\<rparr>) \<and>
   finish gust_tools \<lparr>active = [], incflag = 1, incumbent = Some gust_north\<rparr>
     = Inr [(0, 0), (1 / 6, 2 / 3), (1 / 6, 1), (0, 5 / 3)] \<and>
   time gust_north < time gust_south"
  by code_simp

section \<open>The branching obstacle\<close>

lemma checkdists_Inr:
  "checkdists T ob p1 p2 r tab = Inr ds \<Longrightarrow> ds = map (edge_dist T ob p1 p2 r) tab"
  by (induction tab arbitrary: ds)
     (auto simp: edge_dist_def py_get_def split: sum.splits if_splits)

lemma tie_options_char:
  assumes "tie_options T obsDic allint p1 p2 r indices dl = Inr opts"
  shows "length opts = length indices \<and>
         (\<forall>k<length indices.
            dl @ concat (map (\<lambda>i. map (edge_dist T (obsDic ! i) p1 p2 r) (allint ! i))
                           (take (Suc k) indices)) \<noteq> [] \<and>
            opts ! k =
              Min (set (dl @ concat (map (\<lambda>i. map (edge_dist T (obsDic ! i) p1 p2 r) (allint ! i))
                                      (take (Suc k) indices)))))"
  using assms
proof (induction indices arbitrary: dl opts)
  case Nil
  then show ?case by simp
next
  case (Cons i indices)
  let ?D = "\<lambda>i. map (edge_dist T (obsDic ! i) p1 p2 r) (allint ! i)"
  from Cons.prems obtain ds d opts' where
    cd: "checkdists T (obsDic ! i) p1 p2 r (allint ! i) = Inr ds"
    and pm: "py_min (dl @ ds) = Some d"
    and rec: "tie_options T obsDic allint p1 p2 r indices (dl @ ds) = Inr opts'"
    and opts: "opts = d # opts'"
    by (auto split: sum.splits option.splits)
  from checkdists_Inr[OF cd] have ds: "ds = ?D i" .
  from pm have ne: "dl @ ds \<noteq> []" by (auto simp: py_min_None[symmetric] simp del: py_min.simps)
  from pm py_min_Min[OF ne] have d: "d = Min (set (dl @ ds))" by simp
  from Cons.IH[OF rec] have len: "length opts' = length indices"
    and ih: "\<And>k. k < length indices \<Longrightarrow>
            (dl @ ds) @ concat (map ?D (take (Suc k) indices)) \<noteq> [] \<and>
            opts' ! k = Min (set ((dl @ ds) @ concat (map ?D (take (Suc k) indices))))"
    by simp_all
  show ?case
  proof (intro conjI allI impI)
    show "length opts = length (i # indices)" using len opts by simp
  next
    fix k assume k: "k < length (i # indices)"
    show "dl @ concat (map ?D (take (Suc k) (i # indices))) \<noteq> []"
      using ne ds by auto
  next
    fix k assume k: "k < length (i # indices)"
    show "opts ! k = Min (set (dl @ concat (map ?D (take (Suc k) (i # indices)))))"
    proof (cases k)
      case 0
      then show ?thesis using opts d ds by simp
    next
      case (Suc k')
      with k have "k' < length indices" by simp
      from ih[OF this] Suc opts ds show ?thesis by simp
    qed
  qed
qed

lemma tie_indices_sorted: "sorted_wrt (<) (tie_indices firstseg m)"
proof -
  have "sorted_wrt (<) (map fst (enumerate 0 firstseg))"
    by (simp add: map_fst_enumerate)
  then have "sorted_wrt (\<lambda>a b. fst a < fst b) (enumerate 0 firstseg)"
    by (rule sorted_wrt_map[of "(<)" fst, THEN iffD1])
  then have "sorted_wrt (\<lambda>a b. fst a < fst b)
               (filter (\<lambda>ix. snd ix = Some m) (enumerate 0 firstseg))"
    by (rule sorted_wrt_filter)
  then show ?thesis by (simp add: tie_indices_def sorted_wrt_map)
qed

text \<open>
  What the tie-break of lines 297-316 selects. When two or more obstacles share the least
  first-intersected route segment \<open>m\<close>, the branching obstacle is one of them, and it is the
  one of lowest index that attains the least distance from the start waypoint of segment
  \<open>m\<close> to \<open>intersectionpt\<close> of an obstacle edge and segment \<open>m\<close>, the edge ranging over all
  intersections recorded for the obstacle, on whichever route segment they lie. (That
  \<open>distlist\<close> is not emptied between the obstacles does not change the selection.)
\<close>

lemma branch_obstacle_tie:
  assumes b: "branch_obstacle T obsDic parent allint = Inr b"
    and m: "py_min (List.map_filter (\<lambda>f. f) (firstseg_of allint)) = Some m"
    and tie: "count_list (firstseg_of allint) (Some m) > 1"
  shows "b \<in> set (tie_indices (firstseg_of allint) m) \<and>
         (\<exists>ie \<in> set (allint ! b).
            \<forall>i \<in> set (tie_indices (firstseg_of allint) m). \<forall>ie' \<in> set (allint ! i).
              edge_dist T (obsDic ! b) (waypoints parent ! m) (waypoints parent ! (m + 1))
                  (Pos (waypoints parent ! m)) ie
              \<le> edge_dist T (obsDic ! i) (waypoints parent ! m) (waypoints parent ! (m + 1))
                  (Pos (waypoints parent ! m)) ie' \<and>
              (i < b \<longrightarrow>
                 edge_dist T (obsDic ! b) (waypoints parent ! m) (waypoints parent ! (m + 1))
                   (Pos (waypoints parent ! m)) ie
                 < edge_dist T (obsDic ! i) (waypoints parent ! m) (waypoints parent ! (m + 1))
                   (Pos (waypoints parent ! m)) ie'))"
proof -
  let ?ix = "tie_indices (firstseg_of allint) m"
  let ?p1 = "waypoints parent ! m" and ?p2 = "waypoints parent ! (m + 1)"
  let ?D = "\<lambda>i. map (edge_dist T (obsDic ! i) ?p1 ?p2 (Pos ?p1)) (allint ! i)"
  let ?A = "\<lambda>k. concat (map ?D (take (Suc k) ?ix))"
  from b m tie obtain opts least k where
    to: "tie_options T obsDic allint ?p1 ?p2 (Pos ?p1) ?ix [] = Inr opts"
    and pm: "py_min opts = Some least"
    and pi: "py_index opts least = Some k"
    and bk: "py_get ?ix k = Inr b"
    by (auto simp: branch_obstacle_def Let_def py_get_def
             split: sum.splits option.splits if_splits)
  from bk have kl: "k < length ?ix" and bix: "b = ?ix ! k"
    by (auto simp: py_get_def split: if_splits)
  from tie_options_char[OF to] have len: "length opts = length ?ix"
    and ch: "\<And>j. j < length ?ix \<Longrightarrow> ?A j \<noteq> [] \<and> opts ! j = Min (set (?A j))"
    by simp_all
  from pm have one: "opts \<noteq> []" by (auto simp: py_min_None[symmetric] simp del: py_min.simps)
  from pm py_min_Min[OF one] have least: "least = Min (set opts)" by simp
  from py_index_SomeD[OF pi] have ok: "opts ! k = least"
    and first: "\<And>j. j < k \<Longrightarrow> opts ! j \<noteq> least" by simp_all
  have ge: "least \<le> opts ! j" if "j < length ?ix" for j
  proof -
    have "opts ! j \<in> set opts" using that len by simp
    then show ?thesis unfolding least by (intro Min_le) simp_all
  qed
  have lower: "opts ! j \<le> d" if "j < length ?ix" and "d \<in> set (?D (?ix ! j))" for j d
  proof -
    have "?ix ! j \<in> set (take (Suc j) ?ix)"
      using that(1) by (simp add: take_Suc_conv_app_nth)
    with that(2) have "d \<in> set (?A j)" by (simp del: take_Suc) blast
    then have "Min (set (?A j)) \<le> d" by (intro Min_le) simp_all
    with ch[OF that(1)] show ?thesis by simp
  qed
  have attained: "least \<in> set (?D b)"
  proof -
    have mem: "least \<in> set (?A k)"
      using ch[OF kl] ok Min_in[of "set (?A k)"] by simp
    show ?thesis
    proof (cases k)
      case 0
      with mem kl bix show ?thesis by (cases ?ix) simp_all
    next
      case (Suc k')
      have k'l: "k' < length ?ix" using kl Suc by simp
      have split: "?A k = ?A k' @ ?D b"
        using kl Suc bix by (simp add: take_Suc_conv_app_nth del: take_Suc)
      show ?thesis
      proof (rule ccontr)
        assume "least \<notin> set (?D b)"
        moreover from mem have "least \<in> set (?A k' @ ?D b)" by (simp only: split)
        ultimately have "least \<in> set (?A k')" by (simp only: set_append Un_iff) simp
        then have "Min (set (?A k')) \<le> least" by (intro Min_le) simp_all
        with ch[OF k'l] have "opts ! k' \<le> least" by simp
        with ge[OF k'l] have "opts ! k' = least" by simp
        with first[of k'] Suc show False by simp
      qed
    qed
  qed
  then obtain ie where ie: "ie \<in> set (allint ! b)"
    and dl: "edge_dist T (obsDic ! b) ?p1 ?p2 (Pos ?p1) ie = least" by auto
  have main: "least \<le> edge_dist T (obsDic ! i) ?p1 ?p2 (Pos ?p1) ie' \<and>
              (i < b \<longrightarrow> least < edge_dist T (obsDic ! i) ?p1 ?p2 (Pos ?p1) ie')"
    if i: "i \<in> set ?ix" and ie': "ie' \<in> set (allint ! i)" for i ie'
  proof -
    from i obtain j where jl: "j < length ?ix" and ij: "?ix ! j = i"
      by (auto simp: in_set_conv_nth)
    have dmem: "edge_dist T (obsDic ! i) ?p1 ?p2 (Pos ?p1) ie' \<in> set (?D (?ix ! j))"
      using ie' ij by simp
    from lower[OF jl dmem] ge[OF jl]
    have le: "least \<le> edge_dist T (obsDic ! i) ?p1 ?p2 (Pos ?p1) ie'" by simp
    have "least < edge_dist T (obsDic ! i) ?p1 ?p2 (Pos ?p1) ie'" if "i < b"
    proof -
      have "j < k"
      proof (rule ccontr)
        assume "\<not> j < k"
        then have "k \<le> j" by simp
        then have "?ix ! k \<le> ?ix ! j"
          using tie_indices_sorted[of "firstseg_of allint" m] jl
          by (cases "k = j") (auto simp: sorted_wrt_iff_nth_less less_imp_le)
        with bix ij that show False by simp
      qed
      from first[OF this] ge[OF jl] have "least < opts ! j" by simp
      with lower[OF jl dmem] show ?thesis by simp
    qed
    with le show ?thesis by simp
  qed
  have "b \<in> set ?ix" using kl bix by simp
  moreover have "\<exists>ie \<in> set (allint ! b).
            \<forall>i \<in> set ?ix. \<forall>ie' \<in> set (allint ! i).
              edge_dist T (obsDic ! b) ?p1 ?p2 (Pos ?p1) ie
              \<le> edge_dist T (obsDic ! i) ?p1 ?p2 (Pos ?p1) ie' \<and>
              (i < b \<longrightarrow>
                 edge_dist T (obsDic ! b) ?p1 ?p2 (Pos ?p1) ie
                 < edge_dist T (obsDic ! i) ?p1 ?p2 (Pos ?p1) ie')"
  proof (rule bexI[OF _ ie], intro ballI)
    fix i ie' assume "i \<in> set ?ix" and "ie' \<in> set (allint ! i)"
    from main[OF this] dl
    show "edge_dist T (obsDic ! b) ?p1 ?p2 (Pos ?p1) ie
              \<le> edge_dist T (obsDic ! i) ?p1 ?p2 (Pos ?p1) ie' \<and>
              (i < b \<longrightarrow>
                 edge_dist T (obsDic ! b) ?p1 ?p2 (Pos ?p1) ie
                 < edge_dist T (obsDic ! i) ?p1 ?p2 (Pos ?p1) ie')" by simp
  qed
  ultimately show ?thesis by (rule conjI)
qed


end
